theory Spec2Isabelle
  imports Main
begin

section \<open>Python values of briefcase.py\<close>

text \<open>
  \<^verbatim>\<open>decision_enum = Enum("Decision", ["pi", "delta", "un"])\<close>.
  In the words of the specification \<open>pi\<close> is Pro, \<open>delta\<close> is Con and \<open>un\<close> is
  Undecided.
\<close>

datatype decision_enum = pi | delta | un

text \<open>
  Nothing in the source restricts what is stored as the polarity of a Factor or as the
  decision of a Case: the slot holds either a member of \<open>decision_enum\<close> or some other
  Python value, of which the source itself uses one, the string \<^verbatim>\<open>"un"\<close> (the default
  polarity). A member of an Enum is never equal to a string.
\<close>

datatype pyval = Member decision_enum | Str string

datatype error = KeyError | ValueError | TypeError | RuntimeError

subsection \<open>frozenset and set\<close>

text \<open>
  A Python \<open>frozenset\<close> or \<open>set\<close> object is modelled by the list of its elements in the
  order in which the object is iterated. Equality, hashing, membership and \<open>issubset\<close>
  do not see that order: they go through an abstraction \<open>\<alpha>\<close> of the elements, which is the
  identity for Factors (\<open>Factor.__eq__\<close> compares name and polarity) and \<open>set\<close> for
  frozensets of Factors. The order in which CPython iterates a set is not specified; the
  model iterates in insertion order.
\<close>

definition set_add :: "('a \<Rightarrow> 'b) \<Rightarrow> 'a list \<Rightarrow> 'a \<Rightarrow> 'a list" where
  "set_add \<alpha> s x = (if \<alpha> x \<in> \<alpha> ` set s then s else s @ [x])"

definition frozenset :: "('a \<Rightarrow> 'b) \<Rightarrow> 'a list \<Rightarrow> 'a list" where
  "frozenset \<alpha> xs = fold (\<lambda>x s. set_add \<alpha> s x) xs []"

definition issubset :: "'a list \<Rightarrow> 'a list \<Rightarrow> bool" where
  "issubset a b = (set a \<subseteq> set b)"

subsection \<open>defaultdict(set)\<close>

text \<open>
  A dict is an association list in insertion order. \<open>dd_find\<close> is the lookup that does not
  insert; \<open>dd_getitem\<close> is \<^verbatim>\<open>d[k]\<close> on a \<open>defaultdict(set)\<close>, which inserts an empty set
  under a missing key and returns it; \<open>dd_add\<close> is \<^verbatim>\<open>d[k].add(x)\<close>.
\<close>

fun dd_find :: "('k \<Rightarrow> 'c) \<Rightarrow> ('k \<times> 'v) list \<Rightarrow> 'k \<Rightarrow> 'v option" where
  "dd_find \<kappa> [] k = None"
| "dd_find \<kappa> ((k', v) # d) k = (if \<kappa> k' = \<kappa> k then Some v else dd_find \<kappa> d k)"

definition dd_getitem :: "('k \<Rightarrow> 'c) \<Rightarrow> ('k \<times> 'a list) list \<Rightarrow> 'k \<Rightarrow> 'a list \<times> ('k \<times> 'a list) list" where
  "dd_getitem \<kappa> d k = (case dd_find \<kappa> d k of Some v \<Rightarrow> (v, d) | None \<Rightarrow> ([], d @ [(k, [])]))"

fun dd_add :: "('k \<Rightarrow> 'c) \<Rightarrow> ('a \<Rightarrow> 'b) \<Rightarrow> ('k \<times> 'a list) list \<Rightarrow> 'k \<Rightarrow> 'a \<Rightarrow> ('k \<times> 'a list) list" where
  "dd_add \<kappa> \<alpha> [] k x = [(k, [x])]"
| "dd_add \<kappa> \<alpha> ((k', v) # d) k x =
     (if \<kappa> k' = \<kappa> k then (k', set_add \<alpha> v x) # d else (k', v) # dd_add \<kappa> \<alpha> d k x)"

text \<open>The bucket under a key, empty when the key is missing, read without inserting.\<close>

definition bucket :: "('k \<Rightarrow> 'c) \<Rightarrow> ('k \<times> 'a list) list \<Rightarrow> 'k \<Rightarrow> 'a list" where
  "bucket \<kappa> d k = (case dd_find \<kappa> d k of Some v \<Rightarrow> v | None \<Rightarrow> [])"

section \<open>Factor\<close>

record factor =
  name :: string
  polarity :: pyval

definition Factor :: "string \<Rightarrow> pyval \<Rightarrow> factor" where
  "Factor n p = \<lparr>name = n, polarity = p\<rparr>"

text \<open>\<^verbatim>\<open>Factor(name)\<close>: the default of the parameter is the string \<^verbatim>\<open>"un"\<close>.\<close>

definition Factor_default :: "string \<Rightarrow> factor" where
  "Factor_default n = Factor n (Str ''un'')"

section \<open>Case\<close>

type_synonym factors = "factor list"

record Case =
  pi_factors :: factors
  delta_factors :: factors
  decision :: pyval
  reason :: factors

text \<open>\<open>Case.__init__\<close> stores its four arguments.\<close>

definition Case_init :: "factors \<Rightarrow> factors \<Rightarrow> pyval \<Rightarrow> factors \<Rightarrow> Case" where
  "Case_init p d dec r = \<lparr>pi_factors = p, delta_factors = d, decision = dec, reason = r\<rparr>"

text \<open>\<^verbatim>\<open>Case()\<close>: every parameter at its default.\<close>

definition Case_default :: Case where
  "Case_default = Case_init [] [] (Member un) []"

text \<open>The record that \<open>from_dict\<close> reads: three lists of factor names and a label.\<close>

record dic =
  dic_pi :: "string list"
  dic_delta :: "string list"
  dic_decision :: string
  dic_reason :: "string list"

text \<open>\<^verbatim>\<open>decision_enum[label]\<close>: lookup of a member by name; \<open>None\<close> is the KeyError.\<close>

definition decision_enum_getitem :: "string \<Rightarrow> decision_enum option" where
  "decision_enum_getitem s =
     (if s = ''pi'' then Some pi
      else if s = ''delta'' then Some delta
      else if s = ''un'' then Some un
      else None)"

definition from_dict :: "dic \<Rightarrow> error + Case" where
  "from_dict d =
     (let pi_fs = frozenset (\<lambda>x. x) (map (\<lambda>f. Factor f (Member pi)) (dic_pi d));
          delta_fs = frozenset (\<lambda>x. x) (map (\<lambda>f. Factor f (Member delta)) (dic_delta d))
      in case decision_enum_getitem (dic_decision d) of
           None \<Rightarrow> Inl KeyError
         | Some decision_value \<Rightarrow>
             let reason_fs = frozenset (\<lambda>x. x) (map (\<lambda>f. Factor f (Member decision_value)) (dic_reason d));
                 winning_factors = (if decision_value = pi then pi_fs else delta_fs)
             in if \<not> issubset reason_fs winning_factors then Inl ValueError
                else Inr (Case_init pi_fs delta_fs (Member decision_value) reason_fs))"

definition defeated :: "Case \<Rightarrow> factors" where
  "defeated c =
     (if decision c = Member pi then delta_factors c
      else if decision c = Member delta then pi_factors c
      else [])"

section \<open>PriorityOrder\<close>

text \<open>
  \<open>order\<close> maps a defeated frozenset to the set of reasons recorded as outweighing it;
  \<open>defeated_factor_index\<close> maps a Factor to the set of defeated frozensets that hold it.
  Both are \<open>defaultdict(set)\<close>.
\<close>

record PriorityOrder =
  order :: "(factors \<times> factors list) list"
  defeated_factor_index :: "(factor \<times> factors list) list"

definition PriorityOrder_init :: PriorityOrder where
  "PriorityOrder_init = \<lparr>order = [], defeated_factor_index = []\<rparr>"

subsection \<open>add_order_with_subsets, add_pair_as_appropriate, unsafe_add_case\<close>

definition add_order_with_subsets :: "PriorityOrder \<Rightarrow> factors \<Rightarrow> factors \<Rightarrow> PriorityOrder" where
  "add_order_with_subsets po reason' defeated' =
     \<lparr>order = dd_add set set (order po) defeated' reason',
      defeated_factor_index =
        fold (\<lambda>f idx. dd_add (\<lambda>x. x) set idx f defeated') defeated' (defeated_factor_index po)\<rparr>"

definition add_pair_as_appropriate :: "PriorityOrder \<Rightarrow> factors \<Rightarrow> factors \<Rightarrow> PriorityOrder" where
  "add_pair_as_appropriate po r1 r2 =
     (if set r1 = set r2 then po
      else if issubset r1 r2 then add_order_with_subsets po r2 r1
      else if issubset r2 r1 then add_order_with_subsets po r1 r2
      else po)"

text \<open>
  \<^verbatim>\<open>for r, ds in list(self.order.items())\<close> runs over a copy of the items taken after the
  first insertion, but \<open>ds\<close> is the set object itself: when its turn comes it holds
  whatever has been added to the bucket of \<open>r\<close> until then, so the model reads the bucket
  from the current state. A set that changes size while it is iterated raises
  RuntimeError; the inner loop never changes the bucket it iterates
  (\<open>unsafe_add_case_step_bucket_stable\<close> below), so the model iterates the list read at
  the start of the inner loop and has no such branch.
\<close>

definition unsafe_add_case_step :: "factors \<Rightarrow> factors \<Rightarrow> PriorityOrder \<Rightarrow> PriorityOrder" where
  "unsafe_add_case_step reason' r po =
     (let po' = add_pair_as_appropriate po reason' r;
          ds = bucket set (order po') r
      in fold (\<lambda>d p. add_pair_as_appropriate p reason' d) ds po')"

definition unsafe_add_case :: "PriorityOrder \<Rightarrow> Case \<Rightarrow> PriorityOrder" where
  "unsafe_add_case po c =
     (let po1 = add_order_with_subsets po (reason c) (defeated c)
      in fold (unsafe_add_case_step (reason c)) (map fst (order po1)) po1)"

definition unsafe_add_cases :: "PriorityOrder \<Rightarrow> Case list \<Rightarrow> PriorityOrder" where
  "unsafe_add_cases po cases = fold (\<lambda>c p. unsafe_add_case p c) cases po"

subsection \<open>is_consistent\<close>

text \<open>
  \<^verbatim>\<open>{frozenset(self.defeated_factor_index[factor]) for factor in new_reason}\<close>: every
  lookup goes through the defaultdict, so a factor that is not a key becomes one.
  The elements of the comprehension are frozensets of frozensets, equal when they hold
  the same frozensets.
\<close>

fun defeats_of :: "(factor \<times> factors list) list \<Rightarrow> factors \<Rightarrow> factors list list
    \<Rightarrow> factors list list \<times> (factor \<times> factors list) list" where
  "defeats_of idx [] acc = (acc, idx)"
| "defeats_of idx (f # fs) acc =
     (case dd_getitem (\<lambda>x. x) idx f of
        (b, idx') \<Rightarrow> defeats_of idx' fs (set_add (\<lambda>s. set ` set s) acc (frozenset set b)))"

text \<open>
  \<^verbatim>\<open>frozenset.intersection(*sets)\<close>: called on the class, it needs at least one argument.
\<close>

fun frozenset_intersection :: "factors list list \<Rightarrow> error + factors list" where
  "frozenset_intersection [] = Inl TypeError"
| "frozenset_intersection (s # ss) =
     Inr (fold (\<lambda>t acc. filter (\<lambda>x. set x \<in> set ` set t) acc) ss s)"

text \<open>\<^verbatim>\<open>[self.order[superset] for superset in supersets]\<close>, again through the defaultdict.\<close>

fun reasons_of :: "(factors \<times> factors list) list \<Rightarrow> factors list
    \<Rightarrow> factors list list \<times> (factors \<times> factors list) list" where
  "reasons_of ord [] = ([], ord)"
| "reasons_of ord (s # ss) =
     (case dd_getitem set ord s of
        (b, ord') \<Rightarrow> (case reasons_of ord' ss of (bs, ord'') \<Rightarrow> (b # bs, ord'')))"

definition is_consistent :: "PriorityOrder \<Rightarrow> factors \<Rightarrow> factors \<Rightarrow> (error + bool) \<times> PriorityOrder" where
  "is_consistent po new_reason new_defeated =
     (case defeats_of (defeated_factor_index po) new_reason [] of
        (defeats_that_intersect, idx') \<Rightarrow>
          (case frozenset_intersection (sort_key length defeats_that_intersect) of
             Inl e \<Rightarrow> (Inl e, po\<lparr>defeated_factor_index := idx'\<rparr>)
           | Inr supersets \<Rightarrow>
               (case reasons_of (order po) supersets of
                  (reasons_sets, ord') \<Rightarrow>
                    (Inr (\<not> (\<exists>reasons \<in> set reasons_sets. \<exists>r \<in> set reasons. issubset r new_defeated)),
                     \<lparr>order = ord', defeated_factor_index = idx'\<rparr>))))"

definition is_case_consistent_with :: "PriorityOrder \<Rightarrow> Case \<Rightarrow> (error + bool) \<times> PriorityOrder" where
  "is_case_consistent_with po c = is_consistent po (reason c) (defeated c)"

subsection \<open>is_cb_consistent, count_inconsistencies\<close>

text \<open>
  Both loops run over \<^verbatim>\<open>self.order.items()\<close> itself, not over a copy: the dict iterator
  raises RuntimeError when it is advanced after the dict has changed size, which a
  lookup of a missing key in \<open>is_consistent\<close> can cause. \<open>n\<close> is the size of the dict when
  the loop started.
\<close>

fun cb_inner :: "PriorityOrder \<Rightarrow> factors \<Rightarrow> factors list \<Rightarrow> (error + bool) \<times> PriorityOrder" where
  "cb_inner po defeated' [] = (Inr True, po)"
| "cb_inner po defeated' (reason' # rs) =
     (case is_consistent po reason' defeated' of
        (Inl e, po') \<Rightarrow> (Inl e, po')
      | (Inr ok, po') \<Rightarrow> if \<not> ok then (Inr False, po') else cb_inner po' defeated' rs)"

fun cb_outer :: "nat \<Rightarrow> PriorityOrder \<Rightarrow> (factors \<times> factors list) list \<Rightarrow> (error + bool) \<times> PriorityOrder" where
  "cb_outer n po [] =
     (if length (order po) \<noteq> n then (Inl RuntimeError, po) else (Inr True, po))"
| "cb_outer n po ((defeated', reason_set) # items) =
     (if length (order po) \<noteq> n then (Inl RuntimeError, po)
      else case cb_inner po defeated' reason_set of
             (Inr True, po') \<Rightarrow> cb_outer n po' items
           | (res, po') \<Rightarrow> (res, po'))"

definition is_cb_consistent :: "PriorityOrder \<Rightarrow> (error + bool) \<times> PriorityOrder" where
  "is_cb_consistent po = cb_outer (length (order po)) po (order po)"

text \<open>
  \<open>count_inconsistencies\<close> names the key \<open>reason\<close> and the members of its bucket
  \<open>defeated\<close>, and calls \<^verbatim>\<open>self.is_consistent(reason, defeated)\<close>: the key goes first.
\<close>

fun count_inner :: "PriorityOrder \<Rightarrow> factors \<Rightarrow> factors list \<Rightarrow> nat \<Rightarrow> (error + nat) \<times> PriorityOrder" where
  "count_inner po reason' [] count = (Inr count, po)"
| "count_inner po reason' (defeated' # ds) count =
     (case is_consistent po reason' defeated' of
        (Inl e, po') \<Rightarrow> (Inl e, po')
      | (Inr ok, po') \<Rightarrow> count_inner po' reason' ds (if \<not> ok then count + 1 else count))"

fun count_outer :: "nat \<Rightarrow> PriorityOrder \<Rightarrow> (factors \<times> factors list) list \<Rightarrow> nat \<Rightarrow> (error + nat) \<times> PriorityOrder" where
  "count_outer n po [] count =
     (if length (order po) \<noteq> n then (Inl RuntimeError, po) else (Inr count, po))"
| "count_outer n po ((reason', defeated_set) # items) count =
     (if length (order po) \<noteq> n then (Inl RuntimeError, po)
      else case count_inner po reason' defeated_set count of
             (Inl e, po') \<Rightarrow> (Inl e, po')
           | (Inr count', po') \<Rightarrow> count_outer n po' items count')"

definition count_inconsistencies :: "PriorityOrder \<Rightarrow> (error + nat) \<times> PriorityOrder" where
  "count_inconsistencies po = count_outer (length (order po)) po (order po) 0"

subsection \<open>The cases of the specification's scenario and a one-case base\<close>

definition Case1_dic :: dic where
  "Case1_dic = \<lparr>dic_pi = [''A'', ''B''], dic_delta = [], dic_decision = ''pi'', dic_reason = [''A'']\<rparr>"

definition Case2_dic :: dic where
  "Case2_dic = \<lparr>dic_pi = [], dic_delta = [''A'', ''C''], dic_decision = ''delta'', dic_reason = [''A'', ''C'']\<rparr>"

definition Case3_dic :: dic where
  "Case3_dic = \<lparr>dic_pi = [''A''], dic_delta = [''B''], dic_decision = ''pi'', dic_reason = [''A'']\<rparr>"

definition Case1 :: Case where
  "Case1 = Case_init [Factor ''A'' (Member pi), Factor ''B'' (Member pi)] [] (Member pi)
     [Factor ''A'' (Member pi)]"

definition Case2 :: Case where
  "Case2 = Case_init [] [Factor ''A'' (Member delta), Factor ''C'' (Member delta)] (Member delta)
     [Factor ''A'' (Member delta), Factor ''C'' (Member delta)]"

definition Case3 :: Case where
  "Case3 = Case_init [Factor ''A'' (Member pi)] [Factor ''B'' (Member delta)] (Member pi)
     [Factor ''A'' (Member pi)]"

text \<open>A case without a reason, as \<open>from_dict\<close> builds it from an empty reason list.\<close>

definition Case5_dic :: dic where
  "Case5_dic = \<lparr>dic_pi = [''A''], dic_delta = [''B''], dic_decision = ''pi'', dic_reason = []\<rparr>"

definition Case5 :: Case where
  "Case5 = Case_init [Factor ''A'' (Member pi)] [Factor ''B'' (Member delta)] (Member pi) []"

text \<open>A case whose reason is a strict superset of the reason of Case3.\<close>

definition Case4 :: Case where
  "Case4 = Case_init [Factor ''A'' (Member pi), Factor ''C'' (Member pi)] [Factor ''B'' (Member delta)]
     (Member pi) [Factor ''A'' (Member pi), Factor ''C'' (Member pi)]"

subsection \<open>What an order records\<close>

text \<open>
  \<open>recorded po r d\<close>: the reason \<open>r\<close> is in the bucket of the defeated set \<open>d\<close>, that is,
  \<open>r\<close> is stored as outweighing \<open>d\<close>. \<open>outweighs\<close> is the stored relation on frozensets.
\<close>

definition recorded :: "PriorityOrder \<Rightarrow> factors \<Rightarrow> factors \<Rightarrow> bool" where
  "recorded po r d = (set r \<in> set ` set (bucket set (order po) d))"

definition outweighs :: "PriorityOrder \<Rightarrow> (factor set \<times> factor set) set" where
  "outweighs po =
     (\<Union>d \<in> set (map fst (order po)). (\<lambda>r. (set r, set d)) ` set (bucket set (order po) d))"

text \<open>
  \<open>compared po a b\<close>: if one of \<open>a\<close>, \<open>b\<close> is a strict subset of the other, the superset is
  recorded as outweighing the subset.
\<close>

definition compared :: "PriorityOrder \<Rightarrow> factors \<Rightarrow> factors \<Rightarrow> bool" where
  "compared po a b =
     ((set a \<subset> set b \<longrightarrow> recorded po b a) \<and> (set b \<subset> set a \<longrightarrow> recorded po a b))"

text \<open>
  The two directions of the agreement between \<open>order\<close> and \<open>defeated_factor_index\<close>: every
  set in a bucket of the index holds the factor of the bucket and is a key of the order;
  every key of the order is in the bucket of each of its factors.
\<close>

definition index_members_are_keys :: "PriorityOrder \<Rightarrow> bool" where
  "index_members_are_keys po =
     (\<forall>(f, b) \<in> set (defeated_factor_index po). \<forall>s \<in> set b.
        f \<in> set s \<and> set s \<in> set ` set (map fst (order po)))"

text \<open>Every set held in a bucket of the index is a key of the order.\<close>

definition index_sets_are_keys :: "PriorityOrder \<Rightarrow> bool" where
  "index_sets_are_keys po =
     (\<forall>(f, b) \<in> set (defeated_factor_index po). \<forall>s \<in> set b.
        set s \<in> set ` set (map fst (order po)))"

definition keys_are_indexed :: "PriorityOrder \<Rightarrow> bool" where
  "keys_are_indexed po =
     (\<forall>d \<in> set (map fst (order po)). \<forall>f \<in> set d.
        set d \<in> set ` set (bucket (\<lambda>x. x) (defeated_factor_index po) f))"

definition order_index_sync :: "PriorityOrder \<Rightarrow> bool" where
  "order_index_sync po = (keys_are_indexed po \<and> index_members_are_keys po)"

text \<open>
  The orders that the methods of PriorityOrder produce from the empty one, with any
  arguments. The queries count as well: they go through the defaultdicts.
\<close>

inductive reachable :: "PriorityOrder \<Rightarrow> bool" where
  reach_init: "reachable PriorityOrder_init"
| reach_add_order_with_subsets: "reachable po \<Longrightarrow> reachable (add_order_with_subsets po r d)"
| reach_add_pair_as_appropriate: "reachable po \<Longrightarrow> reachable (add_pair_as_appropriate po r1 r2)"
| reach_unsafe_add_case: "reachable po \<Longrightarrow> reachable (unsafe_add_case po c)"
| reach_unsafe_add_cases: "reachable po \<Longrightarrow> reachable (unsafe_add_cases po cs)"
| reach_is_consistent: "reachable po \<Longrightarrow> reachable (snd (is_consistent po r d))"
| reach_is_case_consistent_with: "reachable po \<Longrightarrow> reachable (snd (is_case_consistent_with po c))"
| reach_is_cb_consistent: "reachable po \<Longrightarrow> reachable (snd (is_cb_consistent po))"
| reach_count_inconsistencies: "reachable po \<Longrightarrow> reachable (snd (count_inconsistencies po))"

section \<open>Basic facts about sets and dicts\<close>

lemma set_set_add: "\<alpha> ` set (set_add \<alpha> s x) = insert (\<alpha> x) (\<alpha> ` set s)"
  by (auto simp: set_add_def)


lemma Factor_image_subset:
  "(\<lambda>f. Factor f p) ` A \<subseteq> (\<lambda>f. Factor f q) ` B \<longleftrightarrow> (A = {} \<or> (p = q \<and> A \<subseteq> B))"
  by (auto simp: Factor_def)

lemma set_add_idem: "set_add \<alpha> (set_add \<alpha> s x) x = set_add \<alpha> s x"
  by (auto simp: set_add_def)

lemma set_add_cases: "y \<in> set (set_add \<alpha> s x) \<Longrightarrow> y \<in> set s \<or> y = x"
  by (auto simp: set_add_def split: if_splits)

lemma set_add_mono: "set s \<subseteq> set (set_add \<alpha> s x)"
  by (auto simp: set_add_def)

lemma dd_find_cong: "\<kappa> k = \<kappa> k' \<Longrightarrow> dd_find \<kappa> d k = dd_find \<kappa> d k'"
  by (induction d) auto

lemma bucket_cong: "\<kappa> k = \<kappa> k' \<Longrightarrow> bucket \<kappa> d k = bucket \<kappa> d k'"
  by (simp add: bucket_def dd_find_cong [of \<kappa> k k'])

lemma dd_find_None_iff: "dd_find \<kappa> d k = None \<longleftrightarrow> \<kappa> k \<notin> \<kappa> ` fst ` set d"
proof (induction d)
  case Nil
  then show ?case by simp
next
  case (Cons a d)
  obtain k' v where a: "a = (k', v)" by (cases a)
  show ?case using Cons.IH by (auto simp: a)
qed

lemma dd_find_Some_mem: "dd_find \<kappa> d k = Some v \<Longrightarrow> \<exists>k'. (k', v) \<in> set d \<and> \<kappa> k' = \<kappa> k"
  by (induction d) (auto split: if_splits)

lemma dd_find_dd_add:
  "dd_find \<kappa> (dd_add \<kappa> \<alpha> d k x) k' =
     (if \<kappa> k' = \<kappa> k then Some (set_add \<alpha> (bucket \<kappa> d k) x) else dd_find \<kappa> d k')"
proof (induction d)
  case Nil
  then show ?case by (simp add: bucket_def set_add_def)
next
  case (Cons a d)
  obtain k0 v where a: "a = (k0, v)" by (cases a)
  show ?case
  proof (cases "\<kappa> k0 = \<kappa> k")
    case True
    then show ?thesis by (simp add: a bucket_def)
  next
    case False
    then show ?thesis using Cons.IH by (simp add: a bucket_def)
  qed
qed

lemma bucket_dd_add:
  "bucket \<kappa> (dd_add \<kappa> \<alpha> d k x) k' =
     (if \<kappa> k' = \<kappa> k then set_add \<alpha> (bucket \<kappa> d k) x else bucket \<kappa> d k')"
  by (simp add: bucket_def dd_find_dd_add)


lemma map_fst_dd_add:
  "map fst (dd_add \<kappa> \<alpha> d k x) =
     (if \<kappa> k \<in> \<kappa> ` fst ` set d then map fst d else map fst d @ [k])"
proof (induction d)
  case Nil
  then show ?case by simp
next
  case (Cons a d)
  obtain k' v where a: "a = (k', v)" by (cases a)
  show ?case using Cons.IH by (auto simp: a)
qed

lemma keys_dd_add: "\<kappa> ` fst ` set (dd_add \<kappa> \<alpha> d k x) = insert (\<kappa> k) (\<kappa> ` fst ` set d)"
proof -
  have "fst ` set (dd_add \<kappa> \<alpha> d k x) = set (map fst (dd_add \<kappa> \<alpha> d k x))" by simp
  also have "\<dots> = (if \<kappa> k \<in> \<kappa> ` fst ` set d then fst ` set d else insert k (fst ` set d))"
    by (simp add: map_fst_dd_add)
  finally show ?thesis by auto
qed

lemma entries_dd_add:
  "(k', b') \<in> set (dd_add \<kappa> \<alpha> d k x) \<Longrightarrow> s \<in> set b' \<Longrightarrow>
     (s = x \<and> \<kappa> k' = \<kappa> k) \<or> (\<exists>b. (k', b) \<in> set d \<and> s \<in> set b)"
proof (induction d)
  case Nil
  then show ?case by auto
next
  case (Cons a d)
  obtain k0 v where a: "a = (k0, v)" by (cases a)
  show ?case
  proof (cases "\<kappa> k0 = \<kappa> k")
    case True
    with Cons.prems a have "(k', b') = (k0, set_add \<alpha> v x) \<or> (k', b') \<in> set d" by simp
    then show ?thesis
    proof
      assume "(k', b') = (k0, set_add \<alpha> v x)"
      with Cons.prems(2) True a show ?thesis by (auto dest: set_add_cases)
    next
      assume "(k', b') \<in> set d"
      with Cons.prems(2) show ?thesis by auto
    qed
  next
    case False
    with Cons.prems a have "(k', b') = (k0, v) \<or> (k', b') \<in> set (dd_add \<kappa> \<alpha> d k x)" by simp
    then show ?thesis
    proof
      assume "(k', b') = (k0, v)"
      with Cons.prems(2) a show ?thesis by auto
    next
      assume "(k', b') \<in> set (dd_add \<kappa> \<alpha> d k x)"
      from Cons.IH [OF this Cons.prems(2)] show ?thesis by auto
    qed
  qed
qed

lemma fst_dd_getitem: "fst (dd_getitem \<kappa> d k) = bucket \<kappa> d k"
  by (simp add: dd_getitem_def bucket_def split: option.splits)

lemma snd_dd_getitem:
  "snd (dd_getitem \<kappa> d k) = (if \<kappa> k \<in> \<kappa> ` fst ` set d then d else d @ [(k, [])])"
  using dd_find_None_iff [of \<kappa> d k] by (auto simp: dd_getitem_def split: option.splits)

lemma dd_find_append_empty:
  "bucket \<kappa> (d @ [(k, [])]) k' = bucket \<kappa> d k'"
  by (induction d) (auto simp: bucket_def)

lemma bucket_snd_dd_getitem: "bucket \<kappa> (snd (dd_getitem \<kappa> d k)) k' = bucket \<kappa> d k'"
  by (simp add: snd_dd_getitem dd_find_append_empty)

lemma fold_invariant: "P s \<Longrightarrow> (\<And>x s. P s \<Longrightarrow> P (f x s)) \<Longrightarrow> P (fold f xs s)"
  by (induction xs arbitrary: s) auto

lemma fold_establish:
  "x \<in> set xs \<Longrightarrow> (\<And>s. I s \<Longrightarrow> P (f x s)) \<Longrightarrow> (\<And>y s. P s \<Longrightarrow> P (f y s)) \<Longrightarrow>
   (\<And>y s. I s \<Longrightarrow> I (f y s)) \<Longrightarrow> I s \<Longrightarrow> P (fold f xs s)"
proof (induction xs arbitrary: s)
  case Nil
  then show ?case by simp
next
  case (Cons a xs)
  show ?case
  proof (cases "x = a")
    case True
    with Cons.prems have "P (f a s)" by simp
    then have "P (fold f xs (f a s))" using Cons.prems(3) by (rule fold_invariant)
    then show ?thesis by simp
  next
    case False
    with Cons.prems have "x \<in> set xs" by simp
    moreover have "I (f a s)" using Cons.prems by simp
    ultimately have "P (fold f xs (f a s))" using Cons.IH Cons.prems by blast
    then show ?thesis by simp
  qed
qed

lemma set_frozenset_subset: "set (frozenset \<alpha> xs) \<subseteq> set xs"
proof -
  have "set (fold (\<lambda>x s. set_add \<alpha> s x) xs acc) \<subseteq> set xs \<union> set acc" for acc
  proof (induction xs arbitrary: acc)
    case Nil
    then show ?case by simp
  next
    case (Cons a xs)
    have "set (set_add \<alpha> acc a) \<subseteq> insert a (set acc)"
      by (auto dest: set_add_cases)
    with Cons [of "set_add \<alpha> acc a"] show ?case by auto
  qed
  from this [of "[]"] show ?thesis by (simp add: frozenset_def)
qed

lemma order_add_order_with_subsets:
  "order (add_order_with_subsets po r d) = dd_add set set (order po) d r"
  by (simp add: add_order_with_subsets_def)

lemma index_add_order_with_subsets:
  "defeated_factor_index (add_order_with_subsets po r d) =
     fold (\<lambda>f idx. dd_add (\<lambda>x. x) set idx f d) d (defeated_factor_index po)"
  by (simp add: add_order_with_subsets_def)

lemma bucket_index_fold:
  "bucket (\<lambda>x. x) (fold (\<lambda>f idx. dd_add (\<lambda>x. x) \<alpha> idx f D) fs idx) g =
     (if g \<in> set fs then set_add \<alpha> (bucket (\<lambda>x. x) idx g) D else bucket (\<lambda>x. x) idx g)"
  by (induction fs arbitrary: idx) (auto simp: bucket_dd_add set_add_idem)

lemma entries_index_fold:
  "(f, b) \<in> set (fold (\<lambda>f idx. dd_add (\<lambda>x. x) \<alpha> idx f D) fs idx) \<Longrightarrow> s \<in> set b \<Longrightarrow>
     (s = D \<and> f \<in> set fs) \<or> (\<exists>b0. (f, b0) \<in> set idx \<and> s \<in> set b0)"
proof (induction fs arbitrary: idx)
  case Nil
  then show ?case by auto
next
  case (Cons a fs)
  from Cons.prems have "(f, b) \<in> set (fold (\<lambda>f idx. dd_add (\<lambda>x. x) \<alpha> idx f D) fs (dd_add (\<lambda>x. x) \<alpha> idx a D))"
    by simp
  from Cons.IH [OF this Cons.prems(2)]
  show ?case
  proof
    assume "s = D \<and> f \<in> set fs"
    then show ?thesis by simp
  next
    assume "\<exists>b0. (f, b0) \<in> set (dd_add (\<lambda>x. x) \<alpha> idx a D) \<and> s \<in> set b0"
    then obtain b0 where "(f, b0) \<in> set (dd_add (\<lambda>x. x) \<alpha> idx a D)" "s \<in> set b0" by blast
    from entries_dd_add [OF this] show ?thesis by auto
  qed
qed

lemma recorded_cong: "set r = set r' \<Longrightarrow> set d = set d' \<Longrightarrow> recorded po r d = recorded po r' d'"
  by (simp add: recorded_def bucket_cong [of set d d'])

lemma recorded_add_order_with_subsets:
  "recorded (add_order_with_subsets po R D) r d \<longleftrightarrow>
     recorded po r d \<or> (set r = set R \<and> set d = set D)"
  by (auto simp: recorded_def order_add_order_with_subsets bucket_dd_add set_set_add
      bucket_cong [of set d D])

lemma sync_add_order_with_subsets:
  assumes "order_index_sync po"
  shows "order_index_sync (add_order_with_subsets po R D)"
proof -
  let ?po = "add_order_with_subsets po R D"
  have keys: "set ` set (map fst (order ?po)) = insert (set D) (set ` set (map fst (order po)))"
    using keys_dd_add [of set set "order po" D R] by (simp add: order_add_order_with_subsets)
  have k1: "keys_are_indexed ?po"
    unfolding keys_are_indexed_def
  proof (intro ballI)
    fix d f assume d: "d \<in> set (map fst (order ?po))" and f: "f \<in> set d"
    have b: "set (bucket (\<lambda>x. x) (defeated_factor_index po) f)
               \<subseteq> set (bucket (\<lambda>x. x) (defeated_factor_index ?po) f)"
      by (simp add: index_add_order_with_subsets bucket_index_fold set_add_mono)
    from d have "d \<in> set (map fst (order po)) \<or> d = D"
      by (auto simp: order_add_order_with_subsets map_fst_dd_add split: if_splits)
    then show "set d \<in> set ` set (bucket (\<lambda>x. x) (defeated_factor_index ?po) f)"
    proof
      assume "d \<in> set (map fst (order po))"
      with assms f have "set d \<in> set ` set (bucket (\<lambda>x. x) (defeated_factor_index po) f)"
        by (auto simp: order_index_sync_def keys_are_indexed_def)
      with b show ?thesis by blast
    next
      assume "d = D"
      with f show ?thesis
        by (simp add: index_add_order_with_subsets bucket_index_fold set_set_add)
    qed
  qed
  have k2: "index_members_are_keys ?po"
    unfolding index_members_are_keys_def
  proof (intro ballI, clarify)
    fix f b s assume fb: "(f, b) \<in> set (defeated_factor_index ?po)" and s: "s \<in> set b"
    from fb have "(f, b) \<in> set (fold (\<lambda>f idx. dd_add (\<lambda>x. x) set idx f D) D (defeated_factor_index po))"
      by (simp add: index_add_order_with_subsets)
    from entries_index_fold [OF this s]
    show "f \<in> set s \<and> set s \<in> set ` set (map fst (order ?po))"
    proof
      assume "s = D \<and> f \<in> set D"
      then show ?thesis using keys by simp
    next
      assume "\<exists>b0. (f, b0) \<in> set (defeated_factor_index po) \<and> s \<in> set b0"
      with assms have "f \<in> set s \<and> set s \<in> set ` set (map fst (order po))"
        by (auto simp: order_index_sync_def index_members_are_keys_def)
      then show ?thesis using keys by simp
    qed
  qed
  from k1 k2 show ?thesis by (simp add: order_index_sync_def)
qed

lemma sync_add_pair_as_appropriate:
  "order_index_sync po \<Longrightarrow> order_index_sync (add_pair_as_appropriate po r1 r2)"
  by (simp add: add_pair_as_appropriate_def sync_add_order_with_subsets)

lemma sync_unsafe_add_case_step:
  assumes "order_index_sync po"
  shows "order_index_sync (unsafe_add_case_step R r po)"
proof -
  have "order_index_sync (add_pair_as_appropriate po R r)"
    using assms by (rule sync_add_pair_as_appropriate)
  then have "order_index_sync (fold (\<lambda>d p. add_pair_as_appropriate p R d)
      (bucket set (order (add_pair_as_appropriate po R r)) r) (add_pair_as_appropriate po R r))"
    by (rule fold_invariant [where P = order_index_sync]) (rule sync_add_pair_as_appropriate)
  then show ?thesis by (simp add: unsafe_add_case_step_def Let_def)
qed

lemma sync_unsafe_add_case:
  assumes "order_index_sync po"
  shows "order_index_sync (unsafe_add_case po c)"
proof -
  have "order_index_sync (add_order_with_subsets po (reason c) (defeated c))"
    using assms by (rule sync_add_order_with_subsets)
  then have "order_index_sync (fold (unsafe_add_case_step (reason c))
      (map fst (order (add_order_with_subsets po (reason c) (defeated c))))
      (add_order_with_subsets po (reason c) (defeated c)))"
    by (rule fold_invariant [where P = order_index_sync]) (rule sync_unsafe_add_case_step)
  then show ?thesis by (simp add: unsafe_add_case_def Let_def)
qed

lemma sync_unsafe_add_cases:
  assumes "order_index_sync po"
  shows "order_index_sync (unsafe_add_cases po cs)"
  unfolding unsafe_add_cases_def using assms
  by (rule fold_invariant [where P = order_index_sync]) (rule sync_unsafe_add_case)

section \<open>Factor and Case\<close>

text \<open>
  C8. \<open>defeated()\<close> of a Case decided \<open>pi\<close> (Pro) is its \<open>delta_factors\<close> (the con factors),
  of a Case decided \<open>delta\<close> (Con) its \<open>pi_factors\<close>, and of an undecided Case the empty
  frozenset.
\<close>

theorem defeated_by_decision:
  "defeated (Case_init p d (Member pi) r) = d \<and>
   defeated (Case_init p d (Member delta) r) = p \<and>
   defeated (Case_init p d (Member un) r) = []"
  by (simp add: defeated_def Case_init_def)

text \<open>
  C10. The constructor of Case checks nothing: whatever the four arguments are, also a
  reason outside the winning factors and a decision that is no member of the enum, the
  Case is built and its four fields are the arguments.
\<close>

theorem Case_init_stores:
  "pi_factors (Case_init p d dec r) = p \<and> delta_factors (Case_init p d dec r) = d \<and>
   decision (Case_init p d dec r) = dec \<and> reason (Case_init p d dec r) = r"
  by (simp add: Case_init_def)

text \<open>
  C9, as stated, fails: a Factor with the empty name is built like any other, and the
  polarity of a Factor built without one is the string \<^verbatim>\<open>"un"\<close>, so that it differs from
  the Factor of the same name with polarity \<open>decision_enum.un\<close>.
\<close>

theorem Factor_empty_name_counterexample:
  "name (Factor [] (Member un)) = [] \<and> name (Factor_default []) = [] \<and>
   Factor_default ''x'' \<noteq> Factor ''x'' (Member un)"
  by (simp add: Factor_def Factor_default_def)

text \<open>
  C9, amended. The constructor of Factor checks nothing: for every name, the empty one
  included, and every polarity given, the Factor is built with that name and that
  polarity, and two Factors are equal exactly when both agree.
\<close>

theorem Factor_stores:
  "name (Factor n p) = n \<and> polarity (Factor n p) = p \<and>
   (Factor n p = Factor n' p' \<longleftrightarrow> n = n' \<and> p = p')"
  by (auto simp: Factor_def)



section \<open>The consistency check on concrete orders\<close>

text \<open>
  C2 is what the specification asks for and not what the code does: with an empty
  \<open>new_reason\<close> the comprehension is empty, \<^verbatim>\<open>frozenset.intersection()\<close> is called without
  an argument, and the call raises TypeError, on every order and for every
  \<open>new_defeated\<close>; the order is left as it was. So does the check of \<^verbatim>\<open>Case()\<close>, and so
  does \<open>is_cb_consistent\<close> once a case that \<open>from_dict\<close> built from an empty reason list
  has been added.
\<close>

theorem is_consistent_empty_reason_raises:
  "is_consistent po [] new_defeated = (Inl TypeError, po) \<and>
   is_case_consistent_with po Case_default = (Inl TypeError, po) \<and>
   from_dict Case5_dic = Inr Case5 \<and>
   fst (is_cb_consistent (unsafe_add_case PriorityOrder_init Case5)) = Inl TypeError"
proof -
  have "is_consistent po [] new_defeated = (Inl TypeError, po)" for new_defeated
    by (simp add: is_consistent_def)
  moreover have "reason Case_default = []"
    by (simp add: Case_default_def Case_init_def)
  moreover have "from_dict Case5_dic = Inr Case5"
    by code_simp
  moreover have "fst (is_cb_consistent (unsafe_add_case PriorityOrder_init Case5)) = Inl TypeError"
    by code_simp
  ultimately show ?thesis by (simp add: is_case_consistent_with_def)
qed

text \<open>
  C1, as stated, fails. The three dicts are accepted by \<open>from_dict\<close>; Case1 defeats the
  empty frozenset, so that nothing enters the index, and the check of Case2 against the
  order that holds Case1 does not return false.
\<close>

theorem scenario_counterexample:
  "from_dict Case1_dic = Inr Case1 \<and> from_dict Case2_dic = Inr Case2 \<and>
   fst (is_consistent (unsafe_add_case PriorityOrder_init Case1) (reason Case2) (defeated Case2))
     \<noteq> Inr False"
  by code_simp

text \<open>
  C1, amended. After Case1 has been folded into the empty order, the check of Case2,
  \<open>is_consistent(Case2.reason, Case2.defeated())\<close>, returns true.
\<close>

theorem scenario_consistent:
  "is_consistent (unsafe_add_case PriorityOrder_init Case1) (reason Case2) (defeated Case2) =
     (Inr True,
      \<lparr>order = [([], [[Factor ''A'' (Member pi)]])],
       defeated_factor_index =
         [(Factor ''A'' (Member delta), []), (Factor ''C'' (Member delta), [])]\<rparr>)"
  by code_simp

text \<open>
  C3 is what the two methods are meant to do and not what the code does: on the order
  built from the single Case3 (pi factor A, delta factor B, decided \<open>pi\<close> for the reason A)
  \<open>is_cb_consistent\<close> returns true and \<open>count_inconsistencies\<close> returns 1, because it
  hands key and member to \<open>is_consistent\<close> in the other order: the one stored pair passes
  \<open>is_consistent(reason, defeated)\<close> and fails \<open>is_consistent(defeated, reason)\<close>.
\<close>

theorem count_inconsistencies_swapped:
  "from_dict Case3_dic = Inr Case3 \<and>
   order (unsafe_add_case PriorityOrder_init Case3) = [(defeated Case3, [reason Case3])] \<and>
   fst (is_consistent (unsafe_add_case PriorityOrder_init Case3) (reason Case3) (defeated Case3))
     = Inr True \<and>
   fst (is_consistent (unsafe_add_case PriorityOrder_init Case3) (defeated Case3) (reason Case3))
     = Inr False \<and>
   fst (is_cb_consistent (unsafe_add_case PriorityOrder_init Case3)) = Inr True \<and>
   fst (count_inconsistencies (unsafe_add_case PriorityOrder_init Case3)) = Inr 1"
  by code_simp

section \<open>What is_consistent does to the order\<close>

lemma bucket_append_empties:
  "bucket \<kappa> (d @ map (\<lambda>k. (k, [])) new) k' = bucket \<kappa> d k'"
proof (induction new arbitrary: d)
  case Nil
  then show ?case by simp
next
  case (Cons n new)
  have "bucket \<kappa> ((d @ [(n, [])]) @ map (\<lambda>k. (k, [])) new) k' = bucket \<kappa> (d @ [(n, [])]) k'"
    by (rule Cons.IH)
  then show ?case by (simp add: dd_find_append_empty)
qed

lemma dd_getitem_cases:
  obtains "dd_getitem \<kappa> d k = (bucket \<kappa> d k, d)" "\<kappa> k \<in> \<kappa> ` fst ` set d"
  | "dd_getitem \<kappa> d k = (bucket \<kappa> d k, d @ [(k, [])])" "\<kappa> k \<notin> \<kappa> ` fst ` set d"
  using fst_dd_getitem [of \<kappa> d k] snd_dd_getitem [of \<kappa> d k]
  by (cases "dd_getitem \<kappa> d k") (auto split: if_splits)

lemma defeats_of_spec:
  "defeats_of idx fs acc = (acc', idx') \<Longrightarrow>
     (\<exists>new. set new \<subseteq> set fs \<and> idx' = idx @ map (\<lambda>f. (f, [])) new) \<and>
     (\<forall>s \<in> set acc'. s \<in> set acc \<or> (\<exists>f \<in> set fs. set s \<subseteq> set (bucket (\<lambda>x. x) idx f)))"
proof (induction fs arbitrary: idx acc)
  case Nil
  then show ?case by simp
next
  case (Cons f fs)
  let ?b = "bucket (\<lambda>x. x) idx f"
  let ?acc = "set_add (\<lambda>s. set ` set s) acc (frozenset set ?b)"
  obtain idx1 where g: "dd_getitem (\<lambda>x. x) idx f = (?b, idx1)"
    and idx1: "idx1 = idx \<or> idx1 = idx @ [(f, [])]"
    by (rule dd_getitem_cases [of "\<lambda>x. x" idx f]) auto
  from Cons.prems g have "defeats_of idx1 fs ?acc = (acc', idx')" by simp
  from Cons.IH [OF this] obtain new where new: "set new \<subseteq> set fs" "idx' = idx1 @ map (\<lambda>f. (f, [])) new"
    and acc: "\<forall>s \<in> set acc'. s \<in> set ?acc \<or> (\<exists>f \<in> set fs. set s \<subseteq> set (bucket (\<lambda>x. x) idx1 f))"
    by blast
  have b1: "bucket (\<lambda>x. x) idx1 g = bucket (\<lambda>x. x) idx g" for g
    using idx1 by (auto simp: dd_find_append_empty)
  have "\<exists>new'. set new' \<subseteq> set (f # fs) \<and> idx' = idx @ map (\<lambda>f. (f, [])) new'"
  proof (rule disjE [OF idx1])
    assume "idx1 = idx"
    with new show ?thesis by (intro exI [of _ new]) auto
  next
    assume "idx1 = idx @ [(f, [])]"
    with new show ?thesis by (intro exI [of _ "f # new"]) auto
  qed
  moreover have "\<forall>s \<in> set acc'. s \<in> set acc \<or> (\<exists>g \<in> set (f # fs). set s \<subseteq> set (bucket (\<lambda>x. x) idx g))"
  proof
    fix s assume "s \<in> set acc'"
    with acc have "s \<in> set ?acc \<or> (\<exists>f \<in> set fs. set s \<subseteq> set (bucket (\<lambda>x. x) idx1 f))" by blast
    then show "s \<in> set acc \<or> (\<exists>g \<in> set (f # fs). set s \<subseteq> set (bucket (\<lambda>x. x) idx g))"
    proof
      assume "s \<in> set ?acc"
      then have "s \<in> set acc \<or> s = frozenset set ?b" by (rule set_add_cases)
      then show ?thesis using set_frozenset_subset [of set ?b] by auto
    next
      assume "\<exists>f \<in> set fs. set s \<subseteq> set (bucket (\<lambda>x. x) idx1 f)"
      then show ?thesis by (auto simp: b1)
    qed
  qed
  ultimately show ?case by blast
qed

lemma set_fold_filter: "set (fold (\<lambda>t acc. filter (P t) acc) ss s) \<subseteq> set s"
  by (induction ss arbitrary: s) (auto, fastforce)

lemma frozenset_intersection_Inr:
  assumes "frozenset_intersection xs = Inr r"
  shows "\<exists>s \<in> set xs. set r \<subseteq> set s"
proof (cases xs)
  case Nil
  with assms show ?thesis by simp
next
  case (Cons a list)
  with assms have "r = fold (\<lambda>t acc. filter (\<lambda>x. set x \<in> set ` set t) acc) list a" by simp
  then have "set r \<subseteq> set a"
    using set_fold_filter [of "\<lambda>t x. set x \<in> set ` set t" list a] by simp
  with Cons show ?thesis by auto
qed

lemma frozenset_intersection_Inl:
  "frozenset_intersection xs = Inl e \<Longrightarrow> xs = [] \<and> e = TypeError"
  by (cases xs) auto

lemma reasons_of_spec:
  "reasons_of ord ss = (bs, ord') \<Longrightarrow>
     (\<exists>new. set new \<subseteq> set ss \<and> ord' = ord @ map (\<lambda>s. (s, [])) new) \<and>
     bs = map (bucket set ord) ss \<and>
     ((\<forall>s \<in> set ss. set s \<in> set ` fst ` set ord) \<longrightarrow> ord' = ord)"
proof (induction ss arbitrary: ord bs ord')
  case Nil
  then show ?case by simp
next
  case (Cons s ss)
  let ?b = "bucket set ord s"
  obtain ord1 where g: "dd_getitem set ord s = (?b, ord1)"
    and ord1: "(ord1 = ord \<and> set s \<in> set ` fst ` set ord) \<or> (ord1 = ord @ [(s, [])] \<and> set s \<notin> set ` fst ` set ord)"
    by (rule dd_getitem_cases [of set ord s]) auto
  obtain bs1 ord2 where r: "reasons_of ord1 ss = (bs1, ord2)" by (cases "reasons_of ord1 ss")
  from Cons.prems g r have eq: "bs = ?b # bs1" "ord' = ord2" by auto
  from Cons.IH [OF r] obtain new where new: "set new \<subseteq> set ss" "ord2 = ord1 @ map (\<lambda>s. (s, [])) new"
    and bs1: "bs1 = map (bucket set ord1) ss"
    and same: "(\<forall>s \<in> set ss. set s \<in> set ` fst ` set ord1) \<longrightarrow> ord2 = ord1"
    by blast
  have b1: "bucket set ord1 g = bucket set ord g" for g
    using ord1 by (auto simp: dd_find_append_empty)
  have "\<exists>new'. set new' \<subseteq> set (s # ss) \<and> ord' = ord @ map (\<lambda>s. (s, [])) new'"
  proof (cases "ord1 = ord")
    case True
    with new eq show ?thesis by (intro exI [of _ new]) auto
  next
    case False
    with ord1 have "ord1 = ord @ [(s, [])]" by blast
    with new eq show ?thesis by (intro exI [of _ "s # new"]) auto
  qed
  moreover have "bs = map (bucket set ord) (s # ss)"
    using eq bs1 by (simp add: b1)
  moreover have "(\<forall>s \<in> set (s # ss). set s \<in> set ` fst ` set ord) \<longrightarrow> ord' = ord"
  proof
    assume a: "\<forall>s \<in> set (s # ss). set s \<in> set ` fst ` set ord"
    then have "ord1 = ord" using ord1 by auto
    with a same eq show "ord' = ord" by auto
  qed
  ultimately show ?case by blast
qed

lemma bucket_mem:
  "x \<in> set (bucket \<kappa> d k) \<Longrightarrow> \<exists>k' b. (k', b) \<in> set d \<and> \<kappa> k' = \<kappa> k \<and> x \<in> set b"
proof (cases "dd_find \<kappa> d k")
  case None
  assume "x \<in> set (bucket \<kappa> d k)"
  with None show ?thesis by (simp add: bucket_def)
next
  case (Some b)
  assume "x \<in> set (bucket \<kappa> d k)"
  with Some have "x \<in> set b" by (simp add: bucket_def)
  moreover from dd_find_Some_mem [OF Some] obtain k' where "(k', b) \<in> set d" "\<kappa> k' = \<kappa> k"
    by blast
  ultimately show ?thesis by blast
qed

lemma defeats_of_new_keys:
  "defeats_of idx fs acc = (acc', idx') \<Longrightarrow>
     \<exists>new. set new = set fs - fst ` set idx \<and> distinct new \<and> idx' = idx @ map (\<lambda>f. (f, [])) new"
proof (induction fs arbitrary: idx acc)
  case Nil
  then show ?case by simp
next
  case (Cons f fs)
  let ?b = "bucket (\<lambda>x. x) idx f"
  let ?acc = "set_add (\<lambda>s. set ` set s) acc (frozenset set ?b)"
  obtain idx1 where g: "dd_getitem (\<lambda>x. x) idx f = (?b, idx1)"
    and idx1: "(idx1 = idx \<and> f \<in> fst ` set idx) \<or> (idx1 = idx @ [(f, [])] \<and> f \<notin> fst ` set idx)"
    by (rule dd_getitem_cases [of "\<lambda>x. x" idx f]) auto
  from Cons.prems g have "defeats_of idx1 fs ?acc = (acc', idx')" by simp
  from Cons.IH [OF this] obtain new where new: "set new = set fs - fst ` set idx1" "distinct new"
    "idx' = idx1 @ map (\<lambda>f. (f, [])) new"
    by blast
  show ?case
  proof (rule disjE [OF idx1])
    assume "idx1 = idx \<and> f \<in> fst ` set idx"
    with new show ?thesis by (intro exI [of _ new]) auto
  next
    assume a: "idx1 = idx @ [(f, [])] \<and> f \<notin> fst ` set idx"
    with new have "set (f # new) = set (f # fs) - fst ` set idx" by auto
    moreover from a new have "distinct (f # new)" by auto
    moreover from a new have "idx' = idx @ map (\<lambda>f. (f, [])) (f # new)" by simp
    ultimately show ?thesis by blast
  qed
qed

lemma is_consistent_effect:
  assumes "is_consistent po r d = (res, po')"
  shows "\<exists>new ss. set new = set r - fst ` set (defeated_factor_index po) \<and> distinct new \<and>
           defeated_factor_index po' = defeated_factor_index po @ map (\<lambda>f. (f, [])) new \<and>
           order po' = order po @ map (\<lambda>s. (s, [])) ss \<and>
           (index_sets_are_keys po \<longrightarrow> ss = [])"
proof -
  obtain defeats idx' where df: "defeats_of (defeated_factor_index po) r [] = (defeats, idx')"
    by (cases "defeats_of (defeated_factor_index po) r []")
  from defeats_of_new_keys [OF df] obtain new
    where new: "set new = set r - fst ` set (defeated_factor_index po)" "distinct new"
      "idx' = defeated_factor_index po @ map (\<lambda>f. (f, [])) new"
    by blast
  show ?thesis
  proof (cases "frozenset_intersection (sort_key length defeats)")
    case (Inl e)
    with assms df have "po' = po\<lparr>defeated_factor_index := idx'\<rparr>"
      by (simp add: is_consistent_def)
    with new show ?thesis by (intro exI [of _ new] exI [of _ "[]"]) simp
  next
    case (Inr supersets)
    obtain bs ord' where ro: "reasons_of (order po) supersets = (bs, ord')"
      by (cases "reasons_of (order po) supersets")
    from assms df Inr ro have po': "po' = \<lparr>order = ord', defeated_factor_index = idx'\<rparr>"
      by (simp add: is_consistent_def)
    from reasons_of_spec [OF ro] obtain ss where ss: "ord' = order po @ map (\<lambda>s. (s, [])) ss"
      and same: "(\<forall>s \<in> set supersets. set s \<in> set ` fst ` set (order po)) \<longrightarrow> ord' = order po"
      by blast
    show ?thesis
    proof (cases "index_sets_are_keys po")
      case False
      with new ss po' show ?thesis by (intro exI [of _ new] exI [of _ ss]) simp
    next
      case True
      have "\<forall>s \<in> set supersets. set s \<in> set ` fst ` set (order po)"
      proof
        fix s assume s: "s \<in> set supersets"
        from frozenset_intersection_Inr [OF Inr] obtain t where t: "t \<in> set defeats" "set supersets \<subseteq> set t"
          by auto
        from defeats_of_spec [OF df] t(1) obtain f where "set t \<subseteq> set (bucket (\<lambda>x. x) (defeated_factor_index po) f)"
          by auto
        with s t(2) have "s \<in> set (bucket (\<lambda>x. x) (defeated_factor_index po) f)" by blast
        from bucket_mem [OF this] obtain b where "(f, b) \<in> set (defeated_factor_index po)" "s \<in> set b"
          by auto
        with True show "set s \<in> set ` fst ` set (order po)"
          by (auto simp: index_sets_are_keys_def)
      qed
      with same have "ord' = order po" by blast
      with new po' True show ?thesis by (intro exI [of _ new] exI [of _ "[]"]) simp
    qed
  qed
qed


lemma index_members_are_keys_sets:
  "index_members_are_keys po \<Longrightarrow> index_sets_are_keys po"
  by (auto simp: index_members_are_keys_def index_sets_are_keys_def)

lemma sync_is_consistent:
  assumes "order_index_sync po"
  shows "order_index_sync (snd (is_consistent po r d))"
proof -
  let ?po = "snd (is_consistent po r d)"
  from assms have imk: "index_members_are_keys po" by (simp add: order_index_sync_def)
  from is_consistent_effect [of po r d "fst (is_consistent po r d)" ?po]
    index_members_are_keys_sets [OF imk]
  obtain new where idx: "defeated_factor_index ?po = defeated_factor_index po @ map (\<lambda>f. (f, [])) new"
    and ord: "order ?po = order po"
    by auto
  have "keys_are_indexed ?po"
    using assms by (simp add: order_index_sync_def keys_are_indexed_def idx ord bucket_append_empties)
  moreover have "index_members_are_keys ?po"
    using imk by (auto simp: index_members_are_keys_def idx ord)
  ultimately show ?thesis by (simp add: order_index_sync_def)
qed

lemma sync_cb_inner:
  "order_index_sync po \<Longrightarrow> order_index_sync (snd (cb_inner po d rs))"
proof (induction rs arbitrary: po)
  case Nil
  then show ?case by simp
next
  case (Cons r rs)
  obtain res po' where ic: "is_consistent po r d = (res, po')" by (cases "is_consistent po r d")
  from sync_is_consistent [OF Cons.prems, of r d] ic have s: "order_index_sync po'" by simp
  show ?case
  proof (cases res)
    case (Inl e)
    with ic s show ?thesis by simp
  next
    case (Inr ok)
    with ic s Cons.IH [OF s] show ?thesis by simp
  qed
qed

lemma sync_cb_outer:
  "order_index_sync po \<Longrightarrow> order_index_sync (snd (cb_outer n po items))"
proof (induction items arbitrary: po)
  case Nil
  then show ?case by simp
next
  case (Cons it items)
  obtain d rs where it: "it = (d, rs)" by (cases it)
  obtain res po' where ci: "cb_inner po d rs = (res, po')" by (cases "cb_inner po d rs")
  from sync_cb_inner [OF Cons.prems, of d rs] ci have s: "order_index_sync po'" by simp
  show ?case
  proof (cases "length (order po) \<noteq> n")
    case True
    with Cons.prems it show ?thesis by simp
  next
    case False
    show ?thesis
    proof (cases "res = Inr True")
      case True
      with False it ci Cons.IH [OF s] show ?thesis by simp
    next
      case False
      with \<open>\<not> length (order po) \<noteq> n\<close> it ci s show ?thesis
        by (cases res) (auto split: bool.splits)
    qed
  qed
qed

lemma sync_count_inner:
  "order_index_sync po \<Longrightarrow> order_index_sync (snd (count_inner po r ds c))"
proof (induction ds arbitrary: po c)
  case Nil
  then show ?case by simp
next
  case (Cons d ds)
  obtain res po' where ic: "is_consistent po r d = (res, po')" by (cases "is_consistent po r d")
  from sync_is_consistent [OF Cons.prems, of r d] ic have s: "order_index_sync po'" by simp
  show ?case
  proof (cases res)
    case (Inl e)
    with ic s show ?thesis by simp
  next
    case (Inr ok)
    with ic Cons.IH [OF s] show ?thesis by simp
  qed
qed

lemma sync_count_outer:
  "order_index_sync po \<Longrightarrow> order_index_sync (snd (count_outer n po items c))"
proof (induction items arbitrary: po c)
  case Nil
  then show ?case by simp
next
  case (Cons it items)
  obtain r ds where it: "it = (r, ds)" by (cases it)
  obtain res po' where ci: "count_inner po r ds c = (res, po')" by (cases "count_inner po r ds c")
  from sync_count_inner [OF Cons.prems, of r ds c] ci have s: "order_index_sync po'" by simp
  show ?case
  proof (cases "length (order po) \<noteq> n")
    case True
    with Cons.prems it show ?thesis by simp
  next
    case False
    show ?thesis
    proof (cases res)
      case (Inl e)
      with False it ci s show ?thesis by simp
    next
      case (Inr c')
      with False it ci Cons.IH [OF s] show ?thesis by simp
    qed
  qed
qed

text \<open>
  C6, as stated, fails: the lookups of \<open>is_consistent\<close> go through the defaultdict. After
  Case1 the index is empty; the check of Case2 leaves an empty bucket in it for each of
  the two factors of the reason.
\<close>

theorem is_consistent_mutates_index_counterexample:
  "defeated_factor_index (unsafe_add_case PriorityOrder_init Case1) = [] \<and>
   defeated_factor_index
     (snd (is_consistent (unsafe_add_case PriorityOrder_init Case1) (reason Case2) (defeated Case2))) =
     [(Factor ''A'' (Member delta), []), (Factor ''C'' (Member delta), [])]"
  by code_simp

text \<open>
  C6, amended. \<open>is_consistent\<close> removes nothing and changes no bucket. The index after the
  call is the index before it, followed by an empty bucket for each factor of
  \<open>new_reason\<close> that was not a key; the order after the call is the order before it,
  followed by empty buckets only, and by none when every set held in the index is a key
  of the order.
\<close>

theorem is_consistent_frame:
  "\<exists>new ss. set new = set new_reason - fst ` set (defeated_factor_index po) \<and> distinct new \<and>
     defeated_factor_index (snd (is_consistent po new_reason new_defeated)) =
       defeated_factor_index po @ map (\<lambda>f. (f, [])) new \<and>
     order (snd (is_consistent po new_reason new_defeated)) = order po @ map (\<lambda>s. (s, [])) ss \<and>
     ((\<forall>(f, b) \<in> set (defeated_factor_index po). \<forall>s \<in> set b.
          set s \<in> set ` set (map fst (order po))) \<longrightarrow> ss = [])"
proof -
  obtain res po' where ic: "is_consistent po new_reason new_defeated = (res, po')"
    by (cases "is_consistent po new_reason new_defeated")
  from is_consistent_effect [OF ic] have
    "\<exists>new ss. set new = set new_reason - fst ` set (defeated_factor_index po) \<and> distinct new \<and>
       defeated_factor_index po' = defeated_factor_index po @ map (\<lambda>f. (f, [])) new \<and>
       order po' = order po @ map (\<lambda>s. (s, [])) ss \<and>
       ((\<forall>(f, b) \<in> set (defeated_factor_index po). \<forall>s \<in> set b.
            set s \<in> set ` set (map fst (order po))) \<longrightarrow> ss = [])"
    unfolding index_sets_are_keys_def .
  with ic show ?thesis by simp
qed

theorem is_consistent_frame_witness:
  "index_sets_are_keys (unsafe_add_case PriorityOrder_init Case3) \<and>
   order (snd (is_consistent (unsafe_add_case PriorityOrder_init Case3) (defeated Case3) (reason Case3))) =
     order (unsafe_add_case PriorityOrder_init Case3) \<and>
   defeated_factor_index
     (snd (is_consistent (unsafe_add_case PriorityOrder_init Case3) (defeated Case3) (reason Case3))) =
     defeated_factor_index (unsafe_add_case PriorityOrder_init Case3)"
proof -
  let ?po = "unsafe_add_case PriorityOrder_init Case3"
  have h: "index_sets_are_keys ?po"
    by code_simp
  have k: "set (defeated Case3) - fst ` set (defeated_factor_index ?po) = {}"
    by code_simp
  from is_consistent_frame [of "defeated Case3" ?po "reason Case3"]
  obtain new ss where
    n: "set new = set (defeated Case3) - fst ` set (defeated_factor_index ?po)" and
    i: "defeated_factor_index (snd (is_consistent ?po (defeated Case3) (reason Case3))) =
          defeated_factor_index ?po @ map (\<lambda>f. (f, [])) new" and
    o: "order (snd (is_consistent ?po (defeated Case3) (reason Case3))) =
          order ?po @ map (\<lambda>s. (s, [])) ss" and
    e: "(\<forall>(f, b) \<in> set (defeated_factor_index ?po). \<forall>s \<in> set b.
           set s \<in> set ` set (map fst (order ?po))) \<longrightarrow> ss = []"
    by blast
  from h e have "ss = []" by (simp add: index_sets_are_keys_def)
  moreover from n k have "new = []" by simp
  ultimately show ?thesis using h i o by simp
qed

section \<open>The order and the index agree\<close>

text \<open>
  C7. In every order that the methods of PriorityOrder produce from the empty one, each
  key \<open>d\<close> of \<open>order\<close> is, for each factor \<open>f\<close> of \<open>d\<close>, in the bucket of \<open>f\<close> in the index;
  and each set in the bucket of a factor \<open>f\<close> holds \<open>f\<close> and is a key of \<open>order\<close>.
\<close>

theorem order_index_synchronized:
  assumes "reachable po"
  shows "(\<forall>d \<in> set (map fst (order po)). \<forall>f \<in> set d.
            set d \<in> set ` set (bucket (\<lambda>x. x) (defeated_factor_index po) f)) \<and>
         (\<forall>(f, b) \<in> set (defeated_factor_index po). \<forall>s \<in> set b.
            f \<in> set s \<and> set s \<in> set ` set (map fst (order po)))"
proof -
  from assms have "order_index_sync po"
  proof (induction rule: reachable.induct)
    case reach_init
    then show ?case
      by (simp add: order_index_sync_def keys_are_indexed_def index_members_are_keys_def
          PriorityOrder_init_def)
  next
    case (reach_add_order_with_subsets po r d)
    then show ?case by (simp add: sync_add_order_with_subsets)
  next
    case (reach_add_pair_as_appropriate po r1 r2)
    then show ?case by (simp add: sync_add_pair_as_appropriate)
  next
    case (reach_unsafe_add_case po c)
    then show ?case by (simp add: sync_unsafe_add_case)
  next
    case (reach_unsafe_add_cases po cs)
    then show ?case by (simp add: sync_unsafe_add_cases)
  next
    case (reach_is_consistent po r d)
    then show ?case by (simp add: sync_is_consistent)
  next
    case (reach_is_case_consistent_with po c)
    then show ?case by (simp add: is_case_consistent_with_def sync_is_consistent)
  next
    case (reach_is_cb_consistent po)
    then show ?case by (simp add: is_cb_consistent_def sync_cb_outer)
  next
    case (reach_count_inconsistencies po)
    then show ?case by (simp add: count_inconsistencies_def sync_count_outer)
  qed
  then show ?thesis
    by (simp add: order_index_sync_def keys_are_indexed_def index_members_are_keys_def)
qed

theorem order_index_synchronized_witness:
  "reachable (snd (is_cb_consistent (unsafe_add_case PriorityOrder_init Case3))) \<and>
   keys_are_indexed (snd (is_cb_consistent (unsafe_add_case PriorityOrder_init Case3))) \<and>
   index_members_are_keys (snd (is_cb_consistent (unsafe_add_case PriorityOrder_init Case3)))"
proof -
  have h: "reachable (snd (is_cb_consistent (unsafe_add_case PriorityOrder_init Case3)))"
    by (intro reachable.intros)
  from order_index_synchronized [OF h] h show ?thesis
    by (simp add: keys_are_indexed_def index_members_are_keys_def)
qed

section \<open>Folding cases into the order\<close>

subsection \<open>The inner loop does not change the set it iterates\<close>

lemma set_add_present: "\<alpha> x \<in> \<alpha> ` set s \<Longrightarrow> set_add \<alpha> s x = s"
  by (simp add: set_add_def)

lemma add_pair_bucket_stable:
  assumes d: "set d \<in> set ` set (bucket set (order s) r)"
    and pre: "set r \<subset> set R \<longrightarrow> set R \<in> set ` set (bucket set (order s) r)"
  shows "bucket set (order (add_pair_as_appropriate s R d)) r = bucket set (order s) r"
proof (cases "set R = set d")
  case True
  then show ?thesis by (simp add: add_pair_as_appropriate_def)
next
  case False
  note ne = this
  show ?thesis
  proof (cases "set R \<subseteq> set d")
    case True
    have "bucket set (dd_add set set (order s) R d) r = bucket set (order s) r"
    proof (cases "set r = set R")
      case True
      then have "bucket set (order s) R = bucket set (order s) r" by (rule bucket_cong [symmetric])
      with d True show ?thesis by (simp add: bucket_dd_add set_add_present)
    next
      case False
      then show ?thesis by (simp add: bucket_dd_add)
    qed
    with ne True show ?thesis
      by (simp add: add_pair_as_appropriate_def issubset_def order_add_order_with_subsets)
  next
    case False
    note nsub = this
    show ?thesis
    proof (cases "set d \<subseteq> set R")
      case True
      have "bucket set (dd_add set set (order s) d R) r = bucket set (order s) r"
      proof (cases "set r = set d")
        case True
        with \<open>set d \<subseteq> set R\<close> ne have "set r \<subset> set R" by blast
        with pre have "set R \<in> set ` set (bucket set (order s) r)" by blast
        moreover from True have "bucket set (order s) d = bucket set (order s) r"
          by (rule bucket_cong [symmetric])
        ultimately show ?thesis using True by (simp add: bucket_dd_add set_add_present)
      next
        case False
        then show ?thesis by (simp add: bucket_dd_add)
      qed
      with ne nsub True show ?thesis
        by (simp add: add_pair_as_appropriate_def issubset_def order_add_order_with_subsets)
    next
      case False
      with ne nsub show ?thesis by (simp add: add_pair_as_appropriate_def issubset_def)
    qed
  qed
qed

lemma inner_loop_bucket_stable:
  assumes "set ds \<subseteq> set (bucket set (order s) r)"
    and "set r \<subset> set R \<longrightarrow> set R \<in> set ` set (bucket set (order s) r)"
  shows "bucket set (order (fold (\<lambda>d p. add_pair_as_appropriate p R d) ds s)) r = bucket set (order s) r"
  using assms
proof (induction ds arbitrary: s)
  case Nil
  then show ?case by simp
next
  case (Cons d ds)
  from Cons.prems(1) have "set d \<in> set ` set (bucket set (order s) r)" by auto
  from add_pair_bucket_stable [OF this Cons.prems(2)]
  have eq: "bucket set (order (add_pair_as_appropriate s R d)) r = bucket set (order s) r" .
  have "bucket set (order (fold (\<lambda>d p. add_pair_as_appropriate p R d) ds (add_pair_as_appropriate s R d))) r
      = bucket set (order (add_pair_as_appropriate s R d)) r"
    using Cons.prems by (intro Cons.IH) (auto simp: eq)
  with eq show ?case by simp
qed

lemma unsafe_add_case_step_bucket_stable:
  "bucket set (order (unsafe_add_case_step R r po)) r =
     bucket set (order (add_pair_as_appropriate po R r)) r"
proof -
  let ?po = "add_pair_as_appropriate po R r"
  have "set r \<subset> set R \<longrightarrow> set R \<in> set ` set (bucket set (order ?po) r)"
    by (auto simp: add_pair_as_appropriate_def issubset_def order_add_order_with_subsets
        bucket_dd_add set_set_add)
  then have "bucket set (order (fold (\<lambda>d p. add_pair_as_appropriate p R d) (bucket set (order ?po) r) ?po)) r
      = bucket set (order ?po) r"
    by (intro inner_loop_bucket_stable) auto
  then show ?thesis by (simp add: unsafe_add_case_step_def Let_def)
qed

subsection \<open>Buckets only grow, and every stored reason is compared with the new one\<close>

text \<open>
  The facts of this subsection rest on two properties of a loop only: what every step
  preserves (\<open>fold_invariant\<close>), and that the step for a given element is taken
  (\<open>fold_establish\<close>). Neither depends on the order in which a set or a dict is iterated.
\<close>

lemma recorded_add_pair_mono:
  "recorded po r d \<Longrightarrow> recorded (add_pair_as_appropriate po r1 r2) r d"
  by (simp add: add_pair_as_appropriate_def recorded_add_order_with_subsets)

lemma compared_add_pair: "compared (add_pair_as_appropriate po a b) a b"
  by (auto simp: compared_def add_pair_as_appropriate_def issubset_def
      recorded_add_order_with_subsets)

lemma compared_sym: "compared po a b = compared po b a"
  unfolding compared_def by (rule conj_commute)

lemma compared_cong: "set b = set b' \<Longrightarrow> compared po a b = compared po a b'"
  by (simp add: compared_def recorded_cong [of b b' a a] recorded_cong [of a a b b'])

lemma compared_add_pair_mono:
  "compared po a b \<Longrightarrow> compared (add_pair_as_appropriate po r1 r2) a b"
  by (simp add: compared_def recorded_add_pair_mono)

lemma recorded_step_mono:
  assumes "recorded po r d"
  shows "recorded (unsafe_add_case_step R k po) r d"
proof -
  have "recorded (add_pair_as_appropriate po R k) r d"
    using assms by (rule recorded_add_pair_mono)
  then have "recorded (fold (\<lambda>d p. add_pair_as_appropriate p R d)
      (bucket set (order (add_pair_as_appropriate po R k)) k) (add_pair_as_appropriate po R k)) r d"
    by (rule fold_invariant [where P = "\<lambda>s. recorded s r d"]) (rule recorded_add_pair_mono)
  then show ?thesis by (simp add: unsafe_add_case_step_def Let_def)
qed

lemma compared_step_mono:
  "compared po a b \<Longrightarrow> compared (unsafe_add_case_step R k po) a b"
  by (simp add: compared_def recorded_step_mono)

lemma recorded_unsafe_add_case_mono:
  assumes "recorded po r d"
  shows "recorded (unsafe_add_case po c) r d"
proof -
  have "recorded (add_order_with_subsets po (reason c) (defeated c)) r d"
    using assms by (simp add: recorded_add_order_with_subsets)
  then have "recorded (fold (unsafe_add_case_step (reason c))
      (map fst (order (add_order_with_subsets po (reason c) (defeated c))))
      (add_order_with_subsets po (reason c) (defeated c))) r d"
    by (rule fold_invariant [where P = "\<lambda>s. recorded s r d"]) (rule recorded_step_mono)
  then show ?thesis by (simp add: unsafe_add_case_def Let_def)
qed

lemma recorded_unsafe_add_cases_mono:
  assumes "recorded po r d"
  shows "recorded (unsafe_add_cases po cs) r d"
  unfolding unsafe_add_cases_def using assms
  by (rule fold_invariant [where P = "\<lambda>s. recorded s r d"]) (rule recorded_unsafe_add_case_mono)

lemma recorded_unsafe_add_case_self:
  "recorded (unsafe_add_case po c) (reason c) (defeated c)"
proof -
  have "recorded (add_order_with_subsets po (reason c) (defeated c)) (reason c) (defeated c)"
    by (simp add: recorded_add_order_with_subsets)
  then have "recorded (fold (unsafe_add_case_step (reason c))
      (map fst (order (add_order_with_subsets po (reason c) (defeated c))))
      (add_order_with_subsets po (reason c) (defeated c))) (reason c) (defeated c)"
    by (rule fold_invariant [where P = "\<lambda>s. recorded s (reason c) (defeated c)"])
      (rule recorded_step_mono)
  then show ?thesis by (simp add: unsafe_add_case_def Let_def)
qed

lemma step_compares:
  assumes "recorded po x k"
  shows "compared (unsafe_add_case_step R k po) R x"
proof -
  let ?po = "add_pair_as_appropriate po R k"
  let ?ds = "bucket set (order ?po) k"
  have "recorded ?po x k" using assms by (rule recorded_add_pair_mono)
  then obtain x' where x': "x' \<in> set ?ds" "set x' = set x"
    by (auto simp: recorded_def)
  have "compared (fold (\<lambda>d p. add_pair_as_appropriate p R d) ?ds ?po) R x'"
  proof (rule fold_establish [where I = "\<lambda>s. True" and P = "\<lambda>s. compared s R x'", OF x'(1)])
    show "\<And>s. True \<Longrightarrow> compared (add_pair_as_appropriate s R x') R x'" by (rule compared_add_pair)
    show "\<And>y s. compared s R x' \<Longrightarrow> compared (add_pair_as_appropriate s R y) R x'"
      by (rule compared_add_pair_mono)
  qed simp_all
  then have "compared (unsafe_add_case_step R k po) R x'"
    by (simp add: unsafe_add_case_step_def Let_def)
  then show ?thesis by (simp add: compared_cong [OF x'(2)])
qed

lemma recorded_key:
  assumes "recorded po x d"
  shows "\<exists>k \<in> set (map fst (order po)). set k = set d"
proof -
  from assms obtain x' where "x' \<in> set (bucket set (order po) d)" by (auto simp: recorded_def)
  from bucket_mem [OF this] show ?thesis by force
qed

lemma unsafe_add_case_compares:
  assumes "recorded po x d"
  shows "compared (unsafe_add_case po c) (reason c) x"
proof -
  let ?R = "reason c"
  let ?po = "add_order_with_subsets po ?R (defeated c)"
  have r1: "recorded ?po x d" using assms by (simp add: recorded_add_order_with_subsets)
  from recorded_key [OF this] obtain k where k: "k \<in> set (map fst (order ?po))" "set k = set d"
    by blast
  from r1 k(2) have rk: "recorded ?po x k" by (simp add: recorded_cong [of x x k d])
  have "compared (fold (unsafe_add_case_step ?R) (map fst (order ?po)) ?po) ?R x"
  proof (rule fold_establish [where I = "\<lambda>s. recorded s x k" and P = "\<lambda>s. compared s ?R x", OF k(1)])
    show "\<And>s. recorded s x k \<Longrightarrow> compared (unsafe_add_case_step ?R k s) ?R x" by (rule step_compares)
    show "\<And>y s. compared s ?R x \<Longrightarrow> compared (unsafe_add_case_step ?R y s) ?R x"
      by (rule compared_step_mono)
    show "\<And>y s. recorded s x k \<Longrightarrow> recorded (unsafe_add_case_step ?R y s) x k"
      by (rule recorded_step_mono)
    show "recorded ?po x k" by (rule rk)
  qed
  then show ?thesis by (simp add: unsafe_add_case_def Let_def)
qed

lemma unsafe_add_cases_Cons:
  "unsafe_add_cases po (c # cs) = unsafe_add_cases (unsafe_add_case po c) cs"
  by (simp add: unsafe_add_cases_def)

lemma later_case_compares:
  assumes "recorded po x d" "c \<in> set cs"
  shows "compared (unsafe_add_cases po cs) (reason c) x"
  using assms
proof (induction cs arbitrary: po)
  case Nil
  then show ?case by simp
next
  case (Cons c' cs)
  show ?case
  proof (cases "c = c'")
    case True
    have "compared (unsafe_add_case po c) (reason c) x"
      using Cons.prems(1) by (rule unsafe_add_case_compares)
    then have "compared (unsafe_add_cases (unsafe_add_case po c) cs) (reason c) x"
      by (simp add: compared_def recorded_unsafe_add_cases_mono)
    with True show ?thesis by (simp add: unsafe_add_cases_Cons)
  next
    case False
    with Cons.prems have "c \<in> set cs" by simp
    moreover have "recorded (unsafe_add_case po c') x d"
      using Cons.prems(1) by (rule recorded_unsafe_add_case_mono)
    ultimately have "compared (unsafe_add_cases (unsafe_add_case po c') cs) (reason c) x"
      by (rule Cons.IH [rotated])
    then show ?thesis by (simp add: unsafe_add_cases_Cons)
  qed
qed

lemma both_added_compared:
  assumes "a \<in> set cs" "b \<in> set cs" "set (reason a) \<noteq> set (reason b)"
  shows "compared (unsafe_add_cases po cs) (reason a) (reason b)"
  using assms
proof (induction cs arbitrary: po)
  case Nil
  then show ?case by simp
next
  case (Cons c cs)
  let ?po = "unsafe_add_case po c"
  show ?case
  proof (cases "c = a")
    case True
    with Cons.prems have b: "b \<in> set cs" by auto
    have "recorded ?po (reason a) (defeated a)"
      using True by (simp add: recorded_unsafe_add_case_self)
    then have "compared (unsafe_add_cases ?po cs) (reason b) (reason a)"
      using b by (rule later_case_compares)
    then show ?thesis by (simp add: unsafe_add_cases_Cons compared_sym [of _ "reason a"])
  next
    case False
    note ca = this
    show ?thesis
    proof (cases "c = b")
      case True
      with Cons.prems ca have a: "a \<in> set cs" by auto
      have "recorded ?po (reason b) (defeated b)"
        using True by (simp add: recorded_unsafe_add_case_self)
      then have "compared (unsafe_add_cases ?po cs) (reason a) (reason b)"
        using a by (rule later_case_compares)
      then show ?thesis by (simp add: unsafe_add_cases_Cons)
    next
      case False
      with ca Cons.prems have "a \<in> set cs" "b \<in> set cs" by auto
      from Cons.IH [OF this Cons.prems(3)] show ?thesis by (simp add: unsafe_add_cases_Cons)
    qed
  qed
qed

lemma recorded_outweighs:
  assumes "recorded po r d"
  shows "(set r, set d) \<in> outweighs po"
proof -
  from recorded_key [OF assms] obtain k where k: "k \<in> set (map fst (order po))" "set k = set d"
    by blast
  from assms k(2) have "recorded po r k" by (simp add: recorded_cong [of r r k d])
  then obtain r' where r': "r' \<in> set (bucket set (order po) k)" "set r' = set r"
    by (auto simp: recorded_def)
  from r'(1) have "(set r', set k) \<in> (\<lambda>r. (set r, set k)) ` set (bucket set (order po) k)"
    by (rule imageI)
  with k(1) have "(set r', set k) \<in> outweighs po"
    unfolding outweighs_def by (rule UN_I)
  then show ?thesis using r'(2) k(2) by simp
qed

text \<open>
  C5. Let the reasons of two cases \<open>a\<close> and \<open>b\<close> be \<open>A\<close>, a strict subset of \<open>B\<close>. After any
  list of cases that holds both, in either order and among any other cases, has been
  folded by \<open>unsafe_add_case\<close> into any order, \<open>B\<close> is recorded as outweighing \<open>A\<close>, and
  every set that \<open>A\<close> is recorded as outweighing is outweighed by \<open>B\<close> in the transitive
  closure of the stored relation.
\<close>

theorem superset_reason_recorded_stronger:
  assumes "a \<in> set cases" "b \<in> set cases" "set (reason a) \<subset> set (reason b)"
  shows "recorded (unsafe_add_cases po cases) (reason b) (reason a) \<and>
         (\<forall>d. recorded (unsafe_add_cases po cases) (reason a) d \<longrightarrow>
              (set (reason b), set d) \<in> (outweighs (unsafe_add_cases po cases))\<^sup>+)"
proof -
  let ?po = "unsafe_add_cases po cases"
  from assms(3) have ne: "set (reason a) \<noteq> set (reason b)" by blast
  have "compared ?po (reason a) (reason b)"
    using assms(1) assms(2) ne by (rule both_added_compared)
  with assms(3) have ba: "recorded ?po (reason b) (reason a)" by (simp add: compared_def)
  then have o: "(set (reason b), set (reason a)) \<in> outweighs ?po" by (rule recorded_outweighs)
  have "(set (reason b), set d) \<in> (outweighs ?po)\<^sup>+" if "recorded ?po (reason a) d" for d
  proof -
    from that have "(set (reason a), set d) \<in> outweighs ?po" by (rule recorded_outweighs)
    with o show ?thesis by (rule trancl_into_trancl [OF r_into_trancl])
  qed
  then have "\<forall>d. recorded ?po (reason a) d \<longrightarrow> (set (reason b), set d) \<in> (outweighs ?po)\<^sup>+"
    by (intro allI impI)
  with ba show ?thesis by (rule conjI)
qed

theorem superset_reason_recorded_stronger_witness:
  "Case3 \<in> set [Case4, Case3] \<and> Case4 \<in> set [Case4, Case3] \<and>
   set (reason Case3) \<subset> set (reason Case4) \<and>
   recorded (unsafe_add_cases PriorityOrder_init [Case4, Case3]) (reason Case4) (reason Case3) \<and>
   (set (reason Case4), set (defeated Case3)) \<in>
     (outweighs (unsafe_add_cases PriorityOrder_init [Case4, Case3]))\<^sup>+"
proof -
  have h1: "Case3 \<in> set [Case4, Case3]" and h2: "Case4 \<in> set [Case4, Case3]" by simp_all
  have h3: "set (reason Case3) \<subset> set (reason Case4)"
    by (auto simp: Case3_def Case4_def Case_init_def Factor_def)
  have h4: "recorded (unsafe_add_cases PriorityOrder_init [Case4, Case3]) (reason Case3) (defeated Case3)"
    by code_simp
  from superset_reason_recorded_stronger [OF h1 h2 h3, of PriorityOrder_init] h1 h2 h3 h4
  show ?thesis by blast
qed

end
